theory Spec2Isabelle
  imports Complex_Main "HOL-Library.AList" "HOL-Library.Multiset"
begin

section \<open>Numbers and template literals\<close>

text \<open>
  The sizes, depths and indices of \<^verbatim>\<open>BenchmarkRunner.tsx\<close> are non-negative integer
  JavaScript numbers; they are modelled as \<^typ>\<open>nat\<close>. Timings and random values are
  JavaScript doubles; they are modelled as \<^typ>\<open>real\<close> (rounding is not modelled).

  A template literal \<^verbatim>\<open>`${n}`\<close> of a non-negative integer below \<open>10^21\<close> is its decimal
  representation without leading zeros.
\<close>

definition digitChar :: "nat \<Rightarrow> char" where
  "digitChar d = ''0123456789'' ! d"

fun numberToString :: "nat \<Rightarrow> string" where
  "numberToString n =
     (if n < 10 then [digitChar n]
      else numberToString (n div 10) @ [digitChar (n mod 10)])"

declare numberToString.simps [simp del]

section \<open>Payload generator\<close>

text \<open>
  \<^verbatim>\<open>
  const generateTestData = (size: number) =>
    Array.from({ length: size }, (_, i) => ({
      id: i,
      name: `Item ${i}`,
      value: Math.random() * 1000,
    }));
  \<close>
  \<^verbatim>\<open>Array.from\<close> on an array-like constructs \<^verbatim>\<open>new Array(len)\<close> first, which
  throws \<^verbatim>\<open>RangeError\<close> when \<open>len\<close> exceeds \<open>2^32 - 1\<close>; otherwise the callback runs
  once per index, in index order. \<^verbatim>\<open>Math.random\<close> is external: the model takes the
  sequence of its results as a parameter (\<open>rnd i\<close> is the draw made for index \<open>i\<close>).
\<close>

datatype error = RangeError

record item =
  item_id :: nat
  item_name :: string
  item_value :: real

definition Array_from :: "nat \<Rightarrow> (nat \<Rightarrow> 'a) \<Rightarrow> error + 'a list" where
  "Array_from len mapFn =
     (if len > 4294967295 then Inl RangeError else Inr (map mapFn [0..<len]))"

definition generateTestData :: "(nat \<Rightarrow> real) \<Rightarrow> nat \<Rightarrow> error + item list" where
  "generateTestData rnd sz =
     Array_from sz
       (\<lambda>i. \<lparr>item_id = i, item_name = ''Item '' @ numberToString i,
             item_value = rnd i * 1000\<rparr>)"

section \<open>Depth simulator\<close>

text \<open>
  \<^verbatim>\<open>BenchmarkApp\<close> reads the clock once when it renders (\<open>startTime\<close>) and renders
  \<^verbatim>\<open><NestedChild level={depth} />\<close>. A child at a level other than \<open>0\<close> only
  renders the child one level below. The child at level \<open>0\<close> generates the payload
  while rendering and registers one effect with an empty dependency list, which React
  runs once after the mount: it applies the update (the provider's \<^verbatim>\<open>updateData\<close> for
  \<^verbatim>\<open>"context"\<close>, a \<^verbatim>\<open>dispatch\<close> into the store otherwise), reads the clock again
  (\<open>endTime\<close>) and calls \<^verbatim>\<open>onComplete(endTime - startTime)\<close>.

  The model returns the number of forwarding layers that were rendered and the calls the
  effect makes, in order; an exception thrown while rendering is \<open>Inl\<close>.
\<close>

datatype "method" = Context | Redux

datatype event = UpdateData "item list" | Dispatch "item list" | OnComplete real

fun NestedChild ::
  "method \<Rightarrow> nat \<Rightarrow> (nat \<Rightarrow> real) \<Rightarrow> real \<Rightarrow> real \<Rightarrow> nat \<Rightarrow> error + nat \<times> event list" where
  "NestedChild method arraySize rnd startTime endTime 0 =
     (if method = Context then
        (case generateTestData rnd arraySize of
           Inl e \<Rightarrow> Inl e
         | Inr newData \<Rightarrow> Inr (0, [UpdateData newData, OnComplete (endTime - startTime)]))
      else
        (case generateTestData rnd arraySize of
           Inl e \<Rightarrow> Inl e
         | Inr newData \<Rightarrow> Inr (0, [Dispatch newData, OnComplete (endTime - startTime)])))"
| "NestedChild method arraySize rnd startTime endTime (Suc level) =
     (case NestedChild method arraySize rnd startTime endTime level of
        Inl e \<Rightarrow> Inl e
      | Inr (layers, effects) \<Rightarrow> Inr (Suc layers, effects))"

definition BenchmarkApp ::
  "method \<Rightarrow> nat \<Rightarrow> nat \<Rightarrow> (nat \<Rightarrow> real) \<Rightarrow> real \<Rightarrow> real \<Rightarrow> error + nat \<times> event list" where
  "BenchmarkApp method arraySize depth rnd startTime endTime =
     NestedChild method arraySize rnd startTime endTime depth"

section \<open>Result aggregation\<close>

text \<open>
  A JavaScript object with string keys is an association list in insertion order:
  reading a key is \<^const>\<open>map_of\<close>, assigning to a key is \<^const>\<open>AList.update\<close> (a new key
  goes to the end, an existing key keeps its place), \<^verbatim>\<open>Object.keys\<close> is the list of
  first components.
\<close>

type_synonym 'v object = "(string \<times> 'v) list"

definition Object_keys :: "'v object \<Rightarrow> string list" where
  "Object_keys obj = map fst obj"

record results =
  contextRes :: "real object object"
  reduxRes :: "real object object"

definition emptyResults :: results where
  "emptyResults = \<lparr>contextRes = [], reduxRes = []\<rparr>"

fun getMethod :: "results \<Rightarrow> method \<Rightarrow> real object object" where
  "getMethod nr Context = contextRes nr"
| "getMethod nr Redux = reduxRes nr"

fun setMethod :: "method \<Rightarrow> real object object \<Rightarrow> results \<Rightarrow> results" where
  "setMethod Context v nr = nr\<lparr>contextRes := v\<rparr>"
| "setMethod Redux v nr = nr\<lparr>reduxRes := v\<rparr>"

definition sizeLabel :: "nat \<Rightarrow> string" where
  "sizeLabel sz = numberToString sz @ '' objects''"

definition depthLabel :: "nat \<Rightarrow> string" where
  "depthLabel depth = ''Depth '' @ numberToString depth"

text \<open>
  Lines 121 to 124 of the handler returned by \<^verbatim>\<open>completeBenchmark\<close>:
  \<^verbatim>\<open>
  if (!newResults[method][`${size} objects`]) {
    newResults[method][`${size} objects`] = {};
  }
  newResults[method][`${size} objects`][`Depth ${depth}`] = time;
  \<close>
\<close>

definition insertResult :: "method \<Rightarrow> nat \<Rightarrow> nat \<Rightarrow> real \<Rightarrow> results \<Rightarrow> results" where
  "insertResult method sz depth time nr =
     (let nr1 = (if map_of (getMethod nr method) (sizeLabel sz) = None
                 then setMethod method (AList.update (sizeLabel sz) [] (getMethod nr method)) nr
                 else nr);
          row = (case map_of (getMethod nr1 method) (sizeLabel sz) of
                   Some r \<Rightarrow> r | None \<Rightarrow> [])
      in setMethod method
           (AList.update (sizeLabel sz) (AList.update (depthLabel depth) time row)
              (getMethod nr1 method)) nr1)"

text \<open>
  Lines 127 to 133, the condition under which the handler publishes:
  \<^verbatim>\<open>
  const contextSizes = Object.keys(newResults.context);
  const reduxSizes = Object.keys(newResults.redux);
  if (contextSizes.length === arraySizes.length &&
      reduxSizes.length === arraySizes.length)
  \<close>
  The configured size list is a parameter of the model; the component's own list is
  \<open>arraySizes\<close> below.
\<close>

definition allComplete :: "nat list \<Rightarrow> results \<Rightarrow> bool" where
  "allComplete sizes nr =
     (let contextSizes = Object_keys (contextRes nr);
          reduxSizes = Object_keys (reduxRes nr)
      in length contextSizes = length sizes \<and> length reduxSizes = length sizes)"

text \<open>
  The completeness condition in the words of the specification, to be compared with
  \<open>allComplete\<close>: for both strategies, the set of size labels present in the matrix is
  the set of the labels of the configured sizes.
\<close>

definition sizeLabelsCovered :: "nat list \<Rightarrow> results \<Rightarrow> bool" where
  "sizeLabelsCovered sizes nr \<longleftrightarrow>
     set (Object_keys (contextRes nr)) = sizeLabel ` set sizes \<and>
     set (Object_keys (reduxRes nr)) = sizeLabel ` set sizes"

text \<open>Reading one leaf cell of the matrix, and counting the leaf cells.\<close>

definition cell :: "results \<Rightarrow> method \<Rightarrow> string \<Rightarrow> string \<Rightarrow> real option" where
  "cell nr method sl dl =
     (case map_of (getMethod nr method) sl of None \<Rightarrow> None | Some row \<Rightarrow> map_of row dl)"

definition leafCount :: "results \<Rightarrow> nat" where
  "leafCount nr =
     sum_list (map (\<lambda>kv. length (snd kv)) (contextRes nr))
     + sum_list (map (\<lambda>kv. length (snd kv)) (reduxRes nr))"

type_synonym runSpec = "method \<times> nat \<times> nat"

text \<open>
  The object \<^verbatim>\<open>newResults\<close> of one sweep after the handlers of the given runs have been
  called with the given times, in the given order.
\<close>

definition record_result :: "runSpec \<times> real \<Rightarrow> results \<Rightarrow> results" where
  "record_result c nr =
     (case c of ((method, sz, depth), time) \<Rightarrow> insertResult method sz depth time nr)"

definition sweepResults :: "(runSpec \<times> real) list \<Rightarrow> results" where
  "sweepResults cs = fold record_result cs emptyResults"

section \<open>The runner component\<close>

text \<open>
  \<^verbatim>\<open>const store = configureStore(...)\<close> is evaluated once, when the module is loaded:
  there is one store object. A \<^verbatim>\<open><ContextProvider>\<close> element rendered into a new root
  is a new component instance with its own \<^verbatim>\<open>useState\<close> cell; it is identified by its
  root.
\<close>

datatype medium = ModuleStore | ProviderInstance nat

record mount =
  rootId :: nat
  medium :: medium
  closure :: nat
  spec :: runSpec

text \<open>
  The state of the runner: the two \<^verbatim>\<open>useState\<close> cells, the \<^verbatim>\<open>newResults\<close> objects
  allocated so far (one for each call of \<^verbatim>\<open>runBenchmarks\<close>; a handler refers to the
  object of the call that created it by its index \<open>closure\<close>), the roots whose effect has
  not run yet, and the number of roots created so far. \<open>benchmarkResults\<close> holds a
  reference: \<open>None\<close> is the initial literal, \<open>Some k\<close> the object \<open>closures ! k\<close>.
\<close>

record harness =
  isRunning :: bool
  benchmarkResults :: "nat option"
  closures :: "results list"
  mounted :: "mount list"
  nextRoot :: nat

definition init :: harness where
  "init = \<lparr>isRunning = False, benchmarkResults = None, closures = [], mounted = [],
           nextRoot = 0\<rparr>"

definition arraySizes :: "nat list" where
  "arraySizes = [10, 100, 1000, 10000, 100000, 1000000]"

definition depths :: "nat list" where
  "depths = [5, 10, 20, 50, 60, 70, 80, 90, 100]"

text \<open>The handler \<^verbatim>\<open>completeBenchmark(method, size, depth)\<close> called with \<open>time\<close>.\<close>

definition completeBenchmark ::
  "nat list \<Rightarrow> nat \<Rightarrow> method \<Rightarrow> nat \<Rightarrow> nat \<Rightarrow> real \<Rightarrow> harness \<Rightarrow> harness" where
  "completeBenchmark sizes k method sz depth time st =
     (let nr = insertResult method sz depth time (closures st ! k);
          st1 = st\<lparr>closures := (closures st)[k := nr]\<rparr>
      in if allComplete sizes nr
         then st1\<lparr>benchmarkResults := Some k, isRunning := False\<rparr>
         else st1)"

text \<open>
  \<^verbatim>\<open>createRoot(document.createElement("div")).render(...)\<close> for one run: a new root,
  with a new provider instance for \<^verbatim>\<open>"context"\<close> and the module's store for
  \<^verbatim>\<open>"redux"\<close>.
\<close>

definition render :: "method \<Rightarrow> nat \<Rightarrow> nat \<Rightarrow> nat \<Rightarrow> harness \<Rightarrow> harness" where
  "render method sz depth k st =
     st\<lparr>mounted := mounted st @
          [\<lparr>rootId = nextRoot st,
            medium = (case method of Context \<Rightarrow> ProviderInstance (nextRoot st)
                                   | Redux \<Rightarrow> ModuleStore),
            closure = k, spec = (method, sz, depth)\<rparr>],
        nextRoot := Suc (nextRoot st)\<rparr>"

text \<open>
  \<^verbatim>\<open>runBenchmarks\<close>: the flag is set, a new \<^verbatim>\<open>newResults\<close> object is allocated,
  and for every size and every depth a \<^verbatim>\<open>"context"\<close> root and then a \<^verbatim>\<open>"redux"\<close>
  root are rendered. The two lists are parameters; the component's own are
  \<open>arraySizes\<close> and \<open>depths\<close>.
\<close>

definition runBenchmarks :: "nat list \<Rightarrow> nat list \<Rightarrow> harness \<Rightarrow> harness" where
  "runBenchmarks sizes ds st =
     (let k = length (closures st);
          st1 = st\<lparr>isRunning := True, closures := closures st @ [emptyResults]\<rparr>
      in fold (\<lambda>sz. fold (\<lambda>depth s. render Redux sz depth k (render Context sz depth k s)) ds)
           sizes st1)"

text \<open>The button: \<^verbatim>\<open>onClick={runBenchmarks} disabled={isRunning}\<close>.\<close>

definition onClick :: "nat list \<Rightarrow> nat list \<Rightarrow> harness \<Rightarrow> harness" where
  "onClick sizes ds st = (if isRunning st then st else runBenchmarks sizes ds st)"

text \<open>
  The effect of the run mounted in root \<open>r\<close> runs and reports the elapsed time \<open>time\<close>
  to its handler. An effect runs once: the root leaves \<open>mounted\<close>. Which effects run,
  in which order and with which times is decided by the rendering engine: it is the
  input of the model, a list of such pairs.
\<close>

definition effect :: "nat list \<Rightarrow> nat \<times> real \<Rightarrow> harness \<Rightarrow> harness" where
  "effect sizes c st =
     (case c of (r, time) \<Rightarrow>
        (case find (\<lambda>m. rootId m = r) (mounted st) of
           None \<Rightarrow> st
         | Some m \<Rightarrow>
             (case spec m of (method, sz, depth) \<Rightarrow>
                completeBenchmark sizes (closure m) method sz depth time
                  (st\<lparr>mounted := filter (\<lambda>m. rootId m \<noteq> r) (mounted st)\<rparr>))))"

text \<open>The RunSpecs in the order in which the two nested \<^verbatim>\<open>forEach\<close> loops issue them.\<close>

definition issued :: "nat list \<Rightarrow> nat list \<Rightarrow> runSpec list" where
  "issued sizes ds = map spec (mounted (runBenchmarks sizes ds init))"

text \<open>
  The invariant of the roots mounted by a first sweep: roots are numbered in the order of
  their creation, every handler closes over the object of call \<open>k\<close>, and the medium of
  a root is its own provider instance or the module's store, by its method.
\<close>

definition fresh :: "nat \<Rightarrow> harness \<Rightarrow> bool" where
  "fresh k st \<longleftrightarrow>
     map rootId (mounted st) = [0..<nextRoot st] \<and>
     (\<forall>m\<in>set (mounted st). closure m = k \<and>
        medium m = (case fst (spec m) of Context \<Rightarrow> ProviderInstance (rootId m)
                                       | Redux \<Rightarrow> ModuleStore))"

section \<open>Labels and the insertion step\<close>

lemma digitChar_inj: "a < 10 \<Longrightarrow> b < 10 \<Longrightarrow> digitChar a = digitChar b \<Longrightarrow> a = b"
proof -
  assume a: "a < 10" and b: "b < 10" and e: "digitChar a = digitChar b"
  have A: "a \<in> {0,1,2,3,4,5,6,7,8,9}" using a by auto
  have B: "b \<in> {0,1,2,3,4,5,6,7,8,9}" using b by auto
  show ?thesis using A B e unfolding digitChar_def by auto
qed

lemma numberToString_nonempty: "numberToString n \<noteq> []"
  by (subst numberToString.simps) simp

lemma numberToString_inj: "numberToString n = numberToString m \<Longrightarrow> n = m"
proof (induction n arbitrary: m rule: numberToString.induct)
  case (1 n)
  show ?case
  proof (cases "n < 10")
    case True
    show ?thesis
    proof (cases "m < 10")
      case True
      with \<open>n < 10\<close> "1.prems" show ?thesis
        by (simp add: numberToString.simps [of n] numberToString.simps [of m] digitChar_inj)
    next
      case False
      with \<open>n < 10\<close> "1.prems" numberToString_nonempty [of "m div 10"] show ?thesis
        by (simp add: numberToString.simps [of n] numberToString.simps [of m])
    qed
  next
    case False
    show ?thesis
    proof (cases "m < 10")
      case True
      with False "1.prems" numberToString_nonempty [of "n div 10"] show ?thesis
        by (simp add: numberToString.simps [of n] numberToString.simps [of m])
    next
      case mf: False
      from False mf "1.prems"
      have e1: "numberToString (n div 10) = numberToString (m div 10)"
        and e2: "digitChar (n mod 10) = digitChar (m mod 10)"
        by (simp_all add: numberToString.simps [of n] numberToString.simps [of m])
      from "1.IH" [OF False e1] have "n div 10 = m div 10" .
      moreover from e2 have "n mod 10 = m mod 10" by (intro digitChar_inj) simp_all
      ultimately show ?thesis by (metis div_mult_mod_eq)
    qed
  qed
qed

lemma sizeLabel_eq_iff [simp]: "sizeLabel a = sizeLabel b \<longleftrightarrow> a = b"
  by (auto simp: sizeLabel_def dest: numberToString_inj)

lemma depthLabel_eq_iff [simp]: "depthLabel a = depthLabel b \<longleftrightarrow> a = b"
  by (auto simp: depthLabel_def dest: numberToString_inj)

lemma getMethod_setMethod [simp]:
  "getMethod (setMethod m v nr) m' = (if m' = m then v else getMethod nr m')"
  by (cases m; cases m') simp_all

lemma getMethod_insertResult:
  "getMethod (insertResult m sz d t nr) m' =
     (if m' = m
      then AList.update (sizeLabel sz)
             (AList.update (depthLabel d) t
                (case map_of (getMethod nr m) (sizeLabel sz) of Some r \<Rightarrow> r | None \<Rightarrow> []))
             (getMethod nr m)
      else getMethod nr m')"
  by (auto simp: insertResult_def Let_def update_conv' split: option.splits)

lemma cell_insertResult:
  "cell (insertResult m sz d t nr) m' sl dl =
     (if m' = m \<and> sl = sizeLabel sz \<and> dl = depthLabel d then Some t else cell nr m' sl dl)"
  by (auto simp: cell_def getMethod_insertResult update_conv' split: option.splits)

lemma keys_insertResult:
  "set (Object_keys (getMethod (insertResult m sz d t nr) m')) =
     (if m' = m then insert (sizeLabel sz) (set (Object_keys (getMethod nr m')))
      else set (Object_keys (getMethod nr m')))"
  by (simp add: Object_keys_def getMethod_insertResult dom_update)

lemma distinct_keys_insertResult:
  "distinct (Object_keys (getMethod nr m')) \<Longrightarrow>
   distinct (Object_keys (getMethod (insertResult m sz d t nr) m'))"
  by (auto simp: Object_keys_def getMethod_insertResult intro: distinct_update)

section \<open>Payload generator: claim C4\<close>

text \<open>
  C4 (as amended). For every size \<open>sz\<close> up to the largest array length \<open>2^32 - 1\<close>, and
  every sequence of draws of \<^verbatim>\<open>Math.random\<close> in \<open>[0, 1)\<close>, the payload generator
  returns a sequence of exactly \<open>sz\<close> records; the record at position \<open>i\<close> has id \<open>i\<close>
  (the ids are \<open>0, \<dots>, sz - 1\<close> in order, so without repeats), the name \<^verbatim>\<open>"Item "\<close>
  followed by the decimal digits of \<open>i\<close>, and a value in \<open>[0, 1000)\<close>.
\<close>

theorem generateTestData_payload:
  assumes "sz \<le> 4294967295" and "\<forall>i. 0 \<le> rnd i \<and> rnd i < 1"
  shows "\<exists>xs. generateTestData rnd sz = Inr xs \<and> length xs = sz \<and>
           map item_id xs = [0..<sz] \<and>
           (\<forall>i<sz. item_id (xs ! i) = i \<and>
                   item_name (xs ! i) = ''Item '' @ numberToString i \<and>
                   0 \<le> item_value (xs ! i) \<and> item_value (xs ! i) < 1000)"
proof -
  let ?f = "\<lambda>i. \<lparr>item_id = i, item_name = ''Item '' @ numberToString i,
                  item_value = rnd i * 1000\<rparr>"
  have g: "generateTestData rnd sz = Inr (map ?f [0..<sz])"
    using assms(1) by (simp add: generateTestData_def Array_from_def)
  have ids: "map item_id (map ?f [0..<sz]) = [0..<sz]"
    by (simp add: comp_def)
  have vals: "0 \<le> rnd i * 1000 \<and> rnd i * 1000 < 1000" for i
    using assms(2) [rule_format, of i] by simp
  show ?thesis
    unfolding g using ids vals by simp
qed

theorem generateTestData_payload_witness:
  "(2::nat) \<le> 4294967295 \<and>
   (\<exists>xs. generateTestData (\<lambda>i. 1 / 2) 2 = Inr xs \<and> length xs = 2 \<and>
      map item_id xs = [0..<2] \<and>
      item_id (xs ! 0) = 0 \<and> item_name (xs ! 0) = ''Item 0'' \<and>
      0 \<le> item_value (xs ! 0) \<and> item_value (xs ! 0) < 1000 \<and>
      item_id (xs ! 1) = 1 \<and> item_name (xs ! 1) = ''Item 1'' \<and>
      0 \<le> item_value (xs ! 1) \<and> item_value (xs ! 1) < 1000)"
proof -
  have h1: "(2::nat) \<le> 4294967295" by simp
  have h2: "\<forall>i::nat. (0::real) \<le> 1 / 2 \<and> (1::real) / 2 < 1" by simp
  from generateTestData_payload [OF h1 h2]
  obtain xs where g: "generateTestData (\<lambda>i. 1 / 2) 2 = Inr xs" "length xs = 2"
      "map item_id xs = [0..<2]"
    and a: "\<forall>i<2. item_id (xs ! i) = i \<and>
                   item_name (xs ! i) = ''Item '' @ numberToString i \<and>
                   0 \<le> item_value (xs ! i) \<and> item_value (xs ! i) < 1000"
    by blast
  have n: "numberToString 0 = ''0''" "numberToString 1 = ''1''"
    by (simp_all add: numberToString.simps digitChar_def)
  from a [rule_format, of 0] a [rule_format, of 1] n
  have "item_id (xs ! 0) = 0 \<and> item_name (xs ! 0) = ''Item 0'' \<and>
        0 \<le> item_value (xs ! 0) \<and> item_value (xs ! 0) < 1000 \<and>
        item_id (xs ! 1) = 1 \<and> item_name (xs ! 1) = ''Item 1'' \<and>
        0 \<le> item_value (xs ! 1) \<and> item_value (xs ! 1) < 1000"
    by simp
  with g h1 show ?thesis by blast
qed

text \<open>
  C4 as stated fails at \<open>size = 2^32\<close>: the array constructor throws, no sequence is
  returned.
\<close>

theorem generateTestData_range_counterexample:
  "generateTestData (\<lambda>i. 0) 4294967296 = Inl RangeError"
  by (simp add: generateTestData_def Array_from_def)

section \<open>Depth simulator: claim C7\<close>

text \<open>
  C7. For every depth \<open>\<ge> 0\<close>, a mounted depth simulator (one whose render succeeded, that
  is, whose payload was generated) makes exactly two calls from its effect: first the
  update of its strategy (\<^verbatim>\<open>updateData\<close> or \<^verbatim>\<open>dispatch\<close>) with the generated payload,
  then the completion callback with \<open>endTime - startTime\<close>; so each is invoked exactly
  once, the update first. The number of forwarding layers is \<open>depth\<close>: none at depth 0.
\<close>

theorem BenchmarkApp_once:
  assumes "generateTestData rnd arraySize = Inr newData"
  shows "BenchmarkApp method arraySize depth rnd startTime endTime =
           Inr (depth, [if method = Context then UpdateData newData else Dispatch newData,
                        OnComplete (endTime - startTime)])"
  unfolding BenchmarkApp_def using assms by (induction depth) simp_all

theorem BenchmarkApp_once_witness:
  "generateTestData (\<lambda>i. 1 / 2) 1 =
     Inr [\<lparr>item_id = 0, item_name = ''Item 0'', item_value = 500\<rparr>] \<and>
   BenchmarkApp Redux 1 0 (\<lambda>i. 1 / 2) 10 12 =
     Inr (0, [Dispatch [\<lparr>item_id = 0, item_name = ''Item 0'', item_value = 500\<rparr>],
              OnComplete 2])"
proof -
  have g: "generateTestData (\<lambda>i. 1 / 2) 1 =
             Inr [\<lparr>item_id = 0, item_name = ''Item 0'', item_value = 500\<rparr>]"
    by (simp add: generateTestData_def Array_from_def numberToString.simps digitChar_def)
  show ?thesis
    using g BenchmarkApp_once [OF g, of Redux 0 10 12] by simp
qed

section \<open>Properties of the aggregation step\<close>

lemma record_result_simp:
  "record_result ((m, sz, d), t) nr = insertResult m sz d t nr"
  by (simp add: record_result_def)

lemma cell_fold_other:
  "(m, sz, d) \<notin> fst ` set cs \<Longrightarrow>
   cell (fold record_result cs nr) m (sizeLabel sz) (depthLabel d)
     = cell nr m (sizeLabel sz) (depthLabel d)"
proof (induction cs arbitrary: nr)
  case Nil
  show ?case by simp
next
  case (Cons c cs)
  obtain m' sz' d' t' where c: "c = ((m', sz', d'), t')" by (cases c) auto
  from Cons.prems have ne: "(m', sz', d') \<noteq> (m, sz, d)" and rest: "(m, sz, d) \<notin> fst ` set cs"
    by (auto simp: c)
  from ne show ?case
    by (auto simp: c record_result_simp Cons.IH [OF rest] cell_insertResult)
qed

lemma cell_fold_absent:
  "(m, sl, dl) \<notin> (\<lambda>c. (fst (fst c), sizeLabel (fst (snd (fst c))),
                          depthLabel (snd (snd (fst c))))) ` set cs \<Longrightarrow>
   cell (fold record_result cs nr) m sl dl = cell nr m sl dl"
proof (induction cs arbitrary: nr)
  case Nil
  show ?case by simp
next
  case (Cons c cs)
  obtain m' sz' d' t' where c: "c = ((m', sz', d'), t')" by (cases c) auto
  from Cons.prems have ne: "(m, sl, dl) \<noteq> (m', sizeLabel sz', depthLabel d')"
    and rest: "(m, sl, dl) \<notin> (\<lambda>c. (fst (fst c), sizeLabel (fst (snd (fst c))),
                          depthLabel (snd (snd (fst c))))) ` set cs"
    by (auto simp: c)
  from ne show ?case
    by (auto simp: c record_result_simp Cons.IH [OF rest] cell_insertResult)
qed

lemma cell_fold_own:
  "distinct (map fst cs) \<Longrightarrow> ((m, sz, d), t) \<in> set cs \<Longrightarrow>
   cell (fold record_result cs nr) m (sizeLabel sz) (depthLabel d) = Some t"
proof (induction cs arbitrary: nr)
  case Nil
  then show ?case by simp
next
  case (Cons c cs)
  show ?case
  proof (cases "c = ((m, sz, d), t)")
    case True
    with Cons.prems(1) have "(m, sz, d) \<notin> fst ` set cs" by simp
    then show ?thesis
      by (simp add: True cell_fold_other record_result_simp cell_insertResult)
  next
    case False
    with Cons.prems have "distinct (map fst cs)" and "((m, sz, d), t) \<in> set cs" by auto
    then show ?thesis by (simp add: Cons.IH)
  qed
qed

lemma keys_record_result:
  "set (Object_keys (getMethod (record_result c nr) m')) =
     set (Object_keys (getMethod nr m')) \<union>
       (if fst (fst c) = m' then {sizeLabel (fst (snd (fst c)))} else {})"
  by (cases c) (auto simp: record_result_def keys_insertResult)

lemma keys_fold:
  "set (Object_keys (getMethod (fold record_result cs nr) m')) =
     set (Object_keys (getMethod nr m')) \<union>
       (\<lambda>c. sizeLabel (fst (snd (fst c)))) ` {c \<in> set cs. fst (fst c) = m'}"
proof (induction cs arbitrary: nr)
  case Nil
  show ?case by simp
next
  case (Cons c cs)
  have "{x \<in> set (c # cs). fst (fst x) = m'} =
          (if fst (fst c) = m' then {c} else {}) \<union> {x \<in> set cs. fst (fst x) = m'}"
    by auto
  then show ?case
    unfolding fold_simps Cons.IH keys_record_result by (auto simp: image_Un)
qed

lemma distinct_keys_fold:
  "distinct (Object_keys (getMethod nr m')) \<Longrightarrow>
   distinct (Object_keys (getMethod (fold record_result cs nr) m'))"
proof (induction cs arbitrary: nr)
  case Nil
  then show ?case by simp
next
  case (Cons c cs)
  obtain m sz d t where c: "c = ((m, sz, d), t)" by (cases c) auto
  show ?case
    using Cons.prems by (simp add: c record_result_simp Cons.IH distinct_keys_insertResult)
qed

lemma length_keys_eq_iff:
  assumes "distinct sizes" and "distinct ks" and "set ks \<subseteq> sizeLabel ` set sizes"
  shows "length ks = length sizes \<longleftrightarrow> set ks = sizeLabel ` set sizes"
proof -
  have inj: "inj_on sizeLabel (set sizes)" by (simp add: inj_on_def)
  have c1: "card (sizeLabel ` set sizes) = length sizes"
    using assms(1) inj by (simp add: card_image distinct_card)
  have c2: "card (set ks) = length ks"
    using assms(2) by (simp add: distinct_card)
  show ?thesis
  proof
    assume "length ks = length sizes"
    with c1 c2 have "card (set ks) = card (sizeLabel ` set sizes)" by simp
    with assms(3) show "set ks = sizeLabel ` set sizes"
      by (intro card_subset_eq) simp_all
  next
    assume "set ks = sizeLabel ` set sizes"
    with c1 c2 show "length ks = length sizes" by simp
  qed
qed

lemma sweep_keys_subset:
  assumes "\<forall>c\<in>set cs. fst (snd (fst c)) \<in> set sizes"
  shows "set (Object_keys (getMethod (sweepResults cs) m')) \<subseteq> sizeLabel ` set sizes"
  using assms unfolding sweepResults_def keys_fold
  by (cases m') (auto simp: emptyResults_def Object_keys_def)

lemma sweep_keys_distinct:
  "distinct (Object_keys (getMethod (sweepResults cs) m'))"
  unfolding sweepResults_def
  by (rule distinct_keys_fold) (cases m'; simp add: emptyResults_def Object_keys_def)

lemma sweep_complete_iff:
  assumes "distinct sizes" and "\<forall>c\<in>set cs. fst (snd (fst c)) \<in> set sizes"
  shows "allComplete sizes (sweepResults cs) \<longleftrightarrow>
           set (Object_keys (contextRes (sweepResults cs))) = sizeLabel ` set sizes \<and>
           set (Object_keys (reduxRes (sweepResults cs))) = sizeLabel ` set sizes"
proof -
  have a: "length (Object_keys (contextRes (sweepResults cs))) = length sizes \<longleftrightarrow>
             set (Object_keys (contextRes (sweepResults cs))) = sizeLabel ` set sizes"
    using length_keys_eq_iff [OF assms(1) sweep_keys_distinct [of cs Context]
        sweep_keys_subset [OF assms(2), of Context]]
    by simp
  have b: "length (Object_keys (reduxRes (sweepResults cs))) = length sizes \<longleftrightarrow>
             set (Object_keys (reduxRes (sweepResults cs))) = sizeLabel ` set sizes"
    using length_keys_eq_iff [OF assms(1) sweep_keys_distinct [of cs Redux]
        sweep_keys_subset [OF assms(2), of Redux]]
    by simp
  show ?thesis
    unfolding allComplete_def Let_def a b ..
qed

lemma sweepResults_snoc:
  "sweepResults (cs @ [c]) = record_result c (sweepResults cs)"
  by (simp add: sweepResults_def)

section \<open>Properties of the scheduling loops\<close>

lemma render_fields [simp]:
  "mounted (render m sz d k st) = mounted st @
     [\<lparr>rootId = nextRoot st,
       medium = (case m of Context \<Rightarrow> ProviderInstance (nextRoot st) | Redux \<Rightarrow> ModuleStore),
       closure = k, spec = (m, sz, d)\<rparr>]"
  "nextRoot (render m sz d k st) = Suc (nextRoot st)"
  "closures (render m sz d k st) = closures st"
  "isRunning (render m sz d k st) = isRunning st"
  "benchmarkResults (render m sz d k st) = benchmarkResults st"
  by (simp_all add: render_def)

lemma runBenchmarks_invariant:
  assumes "P (st\<lparr>isRunning := True, closures := closures st @ [emptyResults]\<rparr>)"
      and "\<And>m sz d s. P s \<Longrightarrow> P (render m sz d (length (closures st)) s)"
  shows "P (runBenchmarks sizes ds st)"
proof -
  let ?k = "length (closures st)"
  have inner: "P (fold (\<lambda>depth s. render Redux sz depth ?k (render Context sz depth ?k s)) ds s)"
    if "P s" for s sz
    using that by (induction ds arbitrary: s) (simp_all add: assms(2))
  have outer:
    "P (fold (\<lambda>sz. fold (\<lambda>depth s. render Redux sz depth ?k (render Context sz depth ?k s)) ds)
          sizes s)"
    if "P s" for s
    using that by (induction sizes arbitrary: s) (simp_all add: inner)
  show ?thesis
    unfolding runBenchmarks_def Let_def by (rule outer [OF assms(1)])
qed

lemma specs_inner:
  "map spec (mounted (fold (\<lambda>d s. render Redux sz d k (render Context sz d k s)) ds st)) =
     map spec (mounted st) @ concat (map (\<lambda>d. [(Context, sz, d), (Redux, sz, d)]) ds)"
  by (induction ds arbitrary: st) simp_all

lemma specs_outer:
  "map spec (mounted
     (fold (\<lambda>sz. fold (\<lambda>d s. render Redux sz d k (render Context sz d k s)) ds) sizes st)) =
     map spec (mounted st) @
       concat (map (\<lambda>sz. concat (map (\<lambda>d. [(Context, sz, d), (Redux, sz, d)]) ds)) sizes)"
  by (induction sizes arbitrary: st) (simp_all add: specs_inner)

lemma issued_eq:
  "issued sizes ds =
     concat (map (\<lambda>sz. concat (map (\<lambda>d. [(Context, sz, d), (Redux, sz, d)]) ds)) sizes)"
  by (simp add: issued_def runBenchmarks_def Let_def specs_outer init_def)

lemma set_inner:
  "set (concat (map (\<lambda>d. [(Context, sz, d), (Redux, sz, d)]) ds)) =
     {Context, Redux} \<times> {sz} \<times> set ds"
  by (induction ds) auto

lemma distinct_inner:
  "distinct ds \<Longrightarrow> distinct (concat (map (\<lambda>d. [(Context, sz, d), (Redux, sz, d)]) ds))"
  by (induction ds) (auto simp: set_inner)

lemma set_issued: "set (issued sizes ds) = {Context, Redux} \<times> set sizes \<times> set ds"
  unfolding issued_eq by (induction sizes) (auto simp: set_inner)

lemma distinct_issued: "distinct sizes \<Longrightarrow> distinct ds \<Longrightarrow> distinct (issued sizes ds)"
  unfolding issued_eq
proof (induction sizes)
  case Nil
  show ?case by simp
next
  case (Cons a sizes)
  have "set (concat (map (\<lambda>sz. concat (map (\<lambda>d. [(Context, sz, d), (Redux, sz, d)]) ds)) sizes))
          = {Context, Redux} \<times> set sizes \<times> set ds"
    using set_issued [of sizes ds] by (simp add: issued_eq)
  with Cons show ?case
    by (auto simp: distinct_inner set_inner)
qed

lemma length_issued: "length (issued sizes ds) = 2 * length sizes * length ds"
proof -
  have i: "length (concat (map (\<lambda>d. [(Context, sz, d), (Redux, sz, d)]) ds)) = 2 * length ds"
    for sz :: nat
    by (induction ds) simp_all
  show ?thesis
    unfolding issued_eq by (induction sizes) (simp_all add: i algebra_simps)
qed

lemma issued_sizes:
  "r < length (issued sizes ds) \<Longrightarrow> fst (snd (issued sizes ds ! r)) \<in> set sizes"
  using nth_mem [of r "issued sizes ds"] by (auto simp: set_issued)

lemma fresh_render: "fresh k st \<Longrightarrow> fresh k (render m sz d k st)"
  by (cases m) (auto simp: fresh_def)

lemma fresh_runBenchmarks: "fresh 0 (runBenchmarks sizes ds init)"
proof (rule runBenchmarks_invariant)
  show "fresh 0 (init\<lparr>isRunning := True, closures := closures init @ [emptyResults]\<rparr>)"
    by (simp add: fresh_def init_def)
  show "fresh 0 (render m sz d (length (closures init)) s)" if "fresh 0 s" for m sz d s
    using fresh_render [OF that, of m sz d] by (simp add: init_def)
qed

lemma runBenchmarks_other_fields:
  "closures (runBenchmarks sizes ds st) = closures st @ [emptyResults] \<and>
   isRunning (runBenchmarks sizes ds st) = True \<and>
   benchmarkResults (runBenchmarks sizes ds st) = benchmarkResults st"
  by (rule runBenchmarks_invariant) simp_all

lemma length_mounted_runBenchmarks:
  "length (mounted (runBenchmarks sizes ds st)) = length (mounted st) + length (issued sizes ds)"
proof -
  have "map spec (mounted (runBenchmarks sizes ds st)) = map spec (mounted st) @ issued sizes ds"
    by (simp add: runBenchmarks_def Let_def specs_outer issued_eq)
  then have "length (map spec (mounted (runBenchmarks sizes ds st))) =
               length (map spec (mounted st) @ issued sizes ds)"
    by simp
  then show ?thesis by simp
qed

lemma sweep_mounts:
  assumes "ms = mounted (runBenchmarks sizes ds init)"
  shows "length ms = length (issued sizes ds)"
    and "map rootId ms = [0..<length ms]"
    and "distinct (map rootId ms)"
    and "\<And>m. m \<in> set ms \<Longrightarrow> closure m = 0"
    and "\<And>m. m \<in> set ms \<Longrightarrow>
           medium m = (case fst (spec m) of Context \<Rightarrow> ProviderInstance (rootId m)
                                          | Redux \<Rightarrow> ModuleStore)"
    and "\<And>r. r < length ms \<Longrightarrow> rootId (ms ! r) = r \<and> spec (ms ! r) = issued sizes ds ! r"
proof -
  have f: "fresh 0 (runBenchmarks sizes ds init)" by (rule fresh_runBenchmarks)
  show l: "length ms = length (issued sizes ds)"
    by (simp add: assms issued_def)
  from f have r0: "map rootId ms = [0..<nextRoot (runBenchmarks sizes ds init)]"
    by (simp add: fresh_def assms)
  then have "length (map rootId ms) = nextRoot (runBenchmarks sizes ds init)"
    by simp
  then have n: "nextRoot (runBenchmarks sizes ds init) = length ms" by simp
  show r: "map rootId ms = [0..<length ms]" using r0 n by simp
  show "distinct (map rootId ms)" unfolding r by simp
  show "\<And>m. m \<in> set ms \<Longrightarrow> closure m = 0" using f by (simp add: fresh_def assms)
  show "\<And>m. m \<in> set ms \<Longrightarrow>
           medium m = (case fst (spec m) of Context \<Rightarrow> ProviderInstance (rootId m)
                                          | Redux \<Rightarrow> ModuleStore)"
    using f by (simp add: fresh_def assms)
  show "rootId (ms ! r) = r \<and> spec (ms ! r) = issued sizes ds ! r" if "r < length ms" for r
  proof
    have "map rootId ms ! r = [0..<length ms] ! r" using r by simp
    with that show "rootId (ms ! r) = r" by simp
    have "issued sizes ds ! r = map spec ms ! r" by (simp add: issued_def assms)
    with that show "spec (ms ! r) = issued sizes ds ! r" by simp
  qed
qed

section \<open>A sweep as a fold of the aggregation step\<close>

text \<open>
  When the effects of distinct mounted roots of a first sweep run in any order, the
  object \<^verbatim>\<open>newResults\<close> of the sweep is the fold of the aggregation step over the
  runs of those roots, the roots that remain mounted are the others, and the running
  flag is still set exactly when no handler call so far has found the completeness
  condition true.
\<close>

lemma find_filter_distinct:
  "distinct (map f xs) \<Longrightarrow> x \<in> set xs \<Longrightarrow> P x \<Longrightarrow>
   find (\<lambda>y. f y = f x) (filter P xs) = Some x"
  by (induction xs) (auto simp: rev_image_eqI)

lemma effect_step:
  assumes ms: "ms = mounted (runBenchmarks sizes ds init)"
      and mo: "mounted st = filter (\<lambda>m. rootId m \<notin> R) ms"
      and cl: "closures st = [nr]"
      and r: "r < length ms" "r \<notin> R"
  shows "effect sizes (r, t) st =
     (if allComplete sizes (record_result (issued sizes ds ! r, t) nr)
      then st\<lparr>mounted := filter (\<lambda>m. rootId m \<notin> insert r R) ms,
              closures := [record_result (issued sizes ds ! r, t) nr],
              benchmarkResults := Some 0, isRunning := False\<rparr>
      else st\<lparr>mounted := filter (\<lambda>m. rootId m \<notin> insert r R) ms,
              closures := [record_result (issued sizes ds ! r, t) nr]\<rparr>)"
proof -
  note sm = sweep_mounts [OF ms]
  let ?m = "ms ! r"
  have mem: "?m \<in> set ms" using r(1) by simp
  have rid: "rootId ?m = r" and sp: "spec ?m = issued sizes ds ! r"
    using sm(6) [OF r(1)] by simp_all
  have c0: "closure ?m = 0" using sm(4) [OF mem] .
  have "find (\<lambda>y. rootId y = rootId ?m) (filter (\<lambda>m. rootId m \<notin> R) ms) = Some ?m"
    using sm(3) mem r(2) rid by (intro find_filter_distinct) simp_all
  then have f: "find (\<lambda>y. rootId y = r) (mounted st) = Some ?m"
    by (simp add: rid mo)
  have g: "filter (\<lambda>m. rootId m \<noteq> r) (mounted st) = filter (\<lambda>m. rootId m \<notin> insert r R) ms"
    unfolding mo by (auto intro: filter_cong)
  obtain m sz d where i: "issued sizes ds ! r = (m, sz, d)"
    by (cases "issued sizes ds ! r") auto
  show ?thesis
    by (simp add: effect_def f g sp i c0 completeBenchmark_def Let_def cl record_result_def)
qed

lemma all_upto_Suc:
  "(\<forall>n. 0 < n \<and> n \<le> Suc k \<longrightarrow> P n) \<longleftrightarrow> (\<forall>n. 0 < n \<and> n \<le> k \<longrightarrow> P n) \<and> P (Suc k)"
  by (auto simp: le_Suc_eq)

lemma sweep_state:
  assumes "distinct (map fst cs)" and "\<forall>c\<in>set cs. fst c < length (issued sizes ds)"
  shows "closures (fold (effect sizes) cs (runBenchmarks sizes ds init)) =
           [sweepResults (map (\<lambda>c. (issued sizes ds ! fst c, snd c)) cs)] \<and>
         mounted (fold (effect sizes) cs (runBenchmarks sizes ds init)) =
           filter (\<lambda>m. rootId m \<notin> fst ` set cs) (mounted (runBenchmarks sizes ds init)) \<and>
         (isRunning (fold (effect sizes) cs (runBenchmarks sizes ds init)) \<longleftrightarrow>
            (\<forall>n. 0 < n \<and> n \<le> length cs \<longrightarrow>
               \<not> allComplete sizes
                   (sweepResults (map (\<lambda>c. (issued sizes ds ! fst c, snd c)) (take n cs))))) \<and>
         benchmarkResults (fold (effect sizes) cs (runBenchmarks sizes ds init)) =
           (if isRunning (fold (effect sizes) cs (runBenchmarks sizes ds init))
            then None else Some 0)"
  using assms
proof (induction cs rule: rev_induct)
  case Nil
  show ?case
    using runBenchmarks_other_fields [of sizes ds init]
    by (simp add: sweepResults_def init_def)
next
  case (snoc c cs)
  let ?start = "runBenchmarks sizes ds init"
  let ?ms = "mounted ?start"
  let ?cur = "fold (effect sizes) cs ?start"
  let ?sp = "\<lambda>c. (issued sizes ds ! fst c, snd c)"
  obtain r t where c: "c = (r, t)" by (cases c) auto
  from snoc.prems have d: "distinct (map fst cs)" and b: "\<forall>c\<in>set cs. fst c < length (issued sizes ds)"
    and rn: "r \<notin> fst ` set cs" and rl: "r < length (issued sizes ds)"
    by (auto simp: c)
  note ih = snoc.IH [OF d b]
  have len: "length ?ms = length (issued sizes ds)"
    by (rule sweep_mounts(1) [OF refl])
  have step: "fold (effect sizes) (cs @ [c]) ?start = effect sizes (r, t) ?cur"
    by (simp add: c)
  let ?nr' = "record_result (issued sizes ds ! r, t) (sweepResults (map ?sp cs))"
  have nr': "sweepResults (map ?sp (cs @ [c])) = ?nr'"
    by (simp add: sweepResults_snoc c)
  have es: "effect sizes (r, t) ?cur =
     (if allComplete sizes ?nr'
      then ?cur\<lparr>mounted := filter (\<lambda>m. rootId m \<notin> insert r (fst ` set cs)) ?ms,
              closures := [?nr'], benchmarkResults := Some 0, isRunning := False\<rparr>
      else ?cur\<lparr>mounted := filter (\<lambda>m. rootId m \<notin> insert r (fst ` set cs)) ?ms,
              closures := [?nr']\<rparr>)"
    using ih rn rl len by (intro effect_step [OF refl]) simp_all
  have tk: "\<And>n. n \<le> length cs \<Longrightarrow> take n (cs @ [c]) = take n cs" by simp
  have run: "(\<forall>n. 0 < n \<and> n \<le> length (cs @ [c]) \<longrightarrow>
               \<not> allComplete sizes (sweepResults (map ?sp (take n (cs @ [c]))))) \<longleftrightarrow>
             (\<forall>n. 0 < n \<and> n \<le> length cs \<longrightarrow>
               \<not> allComplete sizes (sweepResults (map ?sp (take n cs)))) \<and>
             \<not> allComplete sizes ?nr'"
    using nr' by (simp add: all_upto_Suc tk)
  show ?case
    unfolding step es run nr' using ih by (simp add: c)
qed

lemma sweep_keys:
  "set (Object_keys (getMethod
          (sweepResults (map (\<lambda>c. (issued sizes ds ! fst c, snd c)) cs)) m'))
     = sizeLabel ` {sz. \<exists>c\<in>set cs. \<exists>d. issued sizes ds ! fst c = (m', sz, d)}"
proof -
  let ?sp = "\<lambda>c. (issued sizes ds ! fst c, snd c)"
  have e: "set (Object_keys (getMethod emptyResults m')) = {}"
    by (cases m') (simp_all add: emptyResults_def Object_keys_def)
  have "(\<lambda>c. sizeLabel (fst (snd (fst c)))) ` {c \<in> set (map ?sp cs). fst (fst c) = m'}
          = sizeLabel ` {sz. \<exists>c\<in>set cs. \<exists>d. issued sizes ds ! fst c = (m', sz, d)}"
  proof (intro equalityI subsetI)
    fix x
    assume "x \<in> (\<lambda>c. sizeLabel (fst (snd (fst c)))) `
                  {c \<in> set (map ?sp cs). fst (fst c) = m'}"
    then obtain c where c: "c \<in> set cs" "fst (issued sizes ds ! fst c) = m'"
      "x = sizeLabel (fst (snd (issued sizes ds ! fst c)))"
      by auto
    obtain sz d where "issued sizes ds ! fst c = (m', sz, d)"
      using c(2) by (cases "issued sizes ds ! fst c") auto
    with c show "x \<in> sizeLabel ` {sz. \<exists>c\<in>set cs. \<exists>d. issued sizes ds ! fst c = (m', sz, d)}"
      by auto
  next
    fix x
    assume "x \<in> sizeLabel ` {sz. \<exists>c\<in>set cs. \<exists>d. issued sizes ds ! fst c = (m', sz, d)}"
    then obtain sz c d where c: "c \<in> set cs" "issued sizes ds ! fst c = (m', sz, d)"
      "x = sizeLabel sz"
      by auto
    have "((m', sz, d), snd c) \<in> set (map ?sp cs)"
      using c(1,2) by (force simp: image_iff)
    then have "((m', sz, d), snd c) \<in> {c \<in> set (map ?sp cs). fst (fst c) = m'}"
      by simp
    then show "x \<in> (\<lambda>c. sizeLabel (fst (snd (fst c)))) `
                  {c \<in> set (map ?sp cs). fst (fst c) = m'}"
      unfolding c(3) by (rule image_eqI [rotated]) simp
  qed
  then show ?thesis
    unfolding sweepResults_def keys_fold e by simp
qed

lemma sweep_runs_distinct:
  assumes "distinct sizes" and "distinct ds"
      and "mset (map fst cs) = mset [0..<length (issued sizes ds)]"
  shows "distinct (map fst cs)"
    and "\<forall>c\<in>set cs. fst c < length (issued sizes ds)"
    and "distinct (map fst (map (\<lambda>c. (issued sizes ds ! fst c, snd c)) cs))"
proof -
  have "distinct (map fst cs) \<longleftrightarrow> distinct [0..<length (issued sizes ds)]"
    by (rule mset_eq_imp_distinct_iff [OF assms(3)])
  then show dc: "distinct (map fst cs)" by simp
  have "set (map fst cs) = set [0..<length (issued sizes ds)]"
    by (rule mset_eq_setD [OF assms(3)])
  moreover have "fst c \<in> set (map fst cs)" if "c \<in> set cs" for c
    using that by simp
  ultimately show bd: "\<forall>c\<in>set cs. fst c < length (issued sizes ds)" by auto
  have inj: "inj_on (nth (issued sizes ds)) (set (map fst cs))"
    using bd distinct_issued [OF assms(1,2)] by (auto simp: inj_on_def nth_eq_iff_index_eq)
  have "map fst (map (\<lambda>c. (issued sizes ds ! fst c, snd c)) cs)
          = map (nth (issued sizes ds)) (map fst cs)"
    by simp
  then show "distinct (map fst (map (\<lambda>c. (issued sizes ds ! fst c, snd c)) cs))"
    using dc inj by (simp only: distinct_map)
qed

text \<open>
  When every effect of a sweep has run once, each cell of the matrix is the same
  whatever the order of the completions was.
\<close>

lemma final_cells_order_independent:
  assumes "distinct sizes" and "distinct ds"
      and "mset (map fst cs) = mset [0..<length (issued sizes ds)]"
      and "mset cs' = mset cs"
  shows "cell (closures (fold (effect sizes) cs' (runBenchmarks sizes ds init)) ! 0) m sl dl =
         cell (closures (fold (effect sizes) cs (runBenchmarks sizes ds init)) ! 0) m sl dl"
proof -
  let ?sp = "\<lambda>c. (issued sizes ds ! fst c, snd c)"
  let ?key = "\<lambda>c. (fst (fst c), sizeLabel (fst (snd (fst c))), depthLabel (snd (snd (fst c))))"
  have p': "mset (map fst cs') = mset [0..<length (issued sizes ds)]"
    using assms(3,4) by (metis mset_map)
  note d = sweep_runs_distinct [OF assms(1,2,3)]
  note d' = sweep_runs_distinct [OF assms(1,2) p']
  have cl: "closures (fold (effect sizes) cs (runBenchmarks sizes ds init)) ! 0 =
              fold record_result (map ?sp cs) emptyResults"
    using sweep_state [OF d(1,2)] by (simp add: sweepResults_def)
  have cl': "closures (fold (effect sizes) cs' (runBenchmarks sizes ds init)) ! 0 =
              fold record_result (map ?sp cs') emptyResults"
    using sweep_state [OF d'(1,2)] by (simp add: sweepResults_def)
  have s: "set (map ?sp cs') = set (map ?sp cs)"
    using mset_eq_setD [OF assms(4)] by simp
  show ?thesis
  proof (cases "(m, sl, dl) \<in> ?key ` set (map ?sp cs)")
    case True
    then obtain c where c: "c \<in> set (map ?sp cs)" "(m, sl, dl) = ?key c" by blast
    obtain sz d t where ct: "c = ((m, sz, d), t)" "sl = sizeLabel sz" "dl = depthLabel d"
      using c(2) by (cases c) auto
    from c(1) ct(1) have "((m, sz, d), t) \<in> set (map ?sp cs)" by simp
    moreover from this s have "((m, sz, d), t) \<in> set (map ?sp cs')" by simp
    ultimately show ?thesis
      unfolding cl cl' ct(2,3) using cell_fold_own [OF d(3)] cell_fold_own [OF d'(3)] by simp
  next
    case False
    from False s have False': "(m, sl, dl) \<notin> ?key ` set (map ?sp cs')" by simp
    show ?thesis
      unfolding cl cl' cell_fold_absent [OF False] cell_fold_absent [OF False'] ..
  qed
qed

lemma sweep_prefix_complete_iff:
  assumes "distinct sizes" and "distinct (map fst cs)"
      and "\<forall>x\<in>set cs. fst x < length (issued sizes ds)"
  shows "allComplete sizes
           (sweepResults (map (\<lambda>c. (issued sizes ds ! fst c, snd c)) (take n cs))) \<longleftrightarrow>
         sizeLabelsCovered sizes
           (closures (fold (effect sizes) (take n cs) (runBenchmarks sizes ds init)) ! 0)"
proof -
  let ?sp = "\<lambda>c. (issued sizes ds ! fst c, snd c)"
  have d: "distinct (map fst (take n cs))"
    using assms(2) by (simp add: take_map [symmetric])
  have b: "\<forall>x\<in>set (take n cs). fst x < length (issued sizes ds)"
    using assms(3) by (auto dest: in_set_takeD)
  have cl: "closures (fold (effect sizes) (take n cs) (runBenchmarks sizes ds init)) ! 0 =
              sweepResults (map ?sp (take n cs))"
    using sweep_state [OF d b] by simp
  have sz: "\<forall>c\<in>set (map ?sp (take n cs)). fst (snd (fst c)) \<in> set sizes"
    using b by (auto simp: issued_sizes)
  show ?thesis
    unfolding cl sizeLabelsCovered_def by (rule sweep_complete_iff [OF assms(1) sz])
qed

lemma onClick_while_running: "isRunning st \<Longrightarrow> onClick sizes ds st = st"
  by (simp add: onClick_def)

section \<open>Concrete sweeps\<close>

text \<open>
  The labels of the reduced matrix, the equations that evaluate a concrete sweep, and
  the configured sweep after its first 92 completions in issue order: every size has a
  completed run at depth 5 for both strategies, so the completeness condition holds.
\<close>

lemma labels:
  "sizeLabel 10 = ''10 objects''" "sizeLabel 100 = ''100 objects''"
  "depthLabel 5 = ''Depth 5''" "depthLabel 10 = ''Depth 10''"
  by (simp_all add: sizeLabel_def depthLabel_def numberToString.simps digitChar_def)

lemmas harness_eval = runBenchmarks_def init_def render_def effect_def completeBenchmark_def
  insertResult_def allComplete_def Object_keys_def emptyResults_def Let_def labels

lemma issued_depth5:
  "issued arraySizes depths ! 0 = (Context, 10, 5)"
  "issued arraySizes depths ! 1 = (Redux, 10, 5)"
  "issued arraySizes depths ! 18 = (Context, 100, 5)"
  "issued arraySizes depths ! 19 = (Redux, 100, 5)"
  "issued arraySizes depths ! 36 = (Context, 1000, 5)"
  "issued arraySizes depths ! 37 = (Redux, 1000, 5)"
  "issued arraySizes depths ! 54 = (Context, 10000, 5)"
  "issued arraySizes depths ! 55 = (Redux, 10000, 5)"
  "issued arraySizes depths ! 72 = (Context, 100000, 5)"
  "issued arraySizes depths ! 73 = (Redux, 100000, 5)"
  "issued arraySizes depths ! 90 = (Context, 1000000, 5)"
  "issued arraySizes depths ! 91 = (Redux, 1000000, 5)"
  by (simp_all add: issued_eq arraySizes_def depths_def)

lemma issue_order_92_covered:
  "{sz. \<exists>c\<in>set (map (\<lambda>i. (i, 1::real)) [0..<92]).
          \<exists>d. issued arraySizes depths ! fst c = (m', sz, d)} = set arraySizes"
proof (intro equalityI subsetI)
  fix sz
  assume "sz \<in> {sz. \<exists>c\<in>set (map (\<lambda>i. (i, 1::real)) [0..<92]).
                      \<exists>d. issued arraySizes depths ! fst c = (m', sz, d)}"
  then obtain i d where i: "i < 92" "issued arraySizes depths ! i = (m', sz, d)"
    by auto
  have "i < length (issued arraySizes depths)"
    using i(1) by (simp add: length_issued arraySizes_def depths_def)
  from issued_sizes [OF this] i(2) show "sz \<in> set arraySizes" by simp
next
  fix sz
  assume "sz \<in> set arraySizes"
  then have sz: "sz \<in> {10, 100, 1000, 10000, 100000, 1000000}"
    by (simp add: arraySizes_def)
  have "\<exists>i<92. issued arraySizes depths ! i = (m', sz, 5)"
  proof (cases m')
    case Context
    from sz consider "sz = 10" | "sz = 100" | "sz = 1000" | "sz = 10000" | "sz = 100000"
      | "sz = 1000000" by auto
    then show ?thesis
    proof cases
      case 1 then show ?thesis using issued_depth5(1) Context by (intro exI [of _ 0]) simp
    next
      case 2 then show ?thesis using issued_depth5(3) Context by (intro exI [of _ 18]) simp
    next
      case 3 then show ?thesis using issued_depth5(5) Context by (intro exI [of _ 36]) simp
    next
      case 4 then show ?thesis using issued_depth5(7) Context by (intro exI [of _ 54]) simp
    next
      case 5 then show ?thesis using issued_depth5(9) Context by (intro exI [of _ 72]) simp
    next
      case 6 then show ?thesis using issued_depth5(11) Context by (intro exI [of _ 90]) simp
    qed
  next
    case Redux
    from sz consider "sz = 10" | "sz = 100" | "sz = 1000" | "sz = 10000" | "sz = 100000"
      | "sz = 1000000" by auto
    then show ?thesis
    proof cases
      case 1 then show ?thesis using issued_depth5(2) Redux by (intro exI [of _ 1]) simp
    next
      case 2 then show ?thesis using issued_depth5(4) Redux by (intro exI [of _ 19]) simp
    next
      case 3 then show ?thesis using issued_depth5(6) Redux by (intro exI [of _ 37]) simp
    next
      case 4 then show ?thesis using issued_depth5(8) Redux by (intro exI [of _ 55]) simp
    next
      case 5 then show ?thesis using issued_depth5(10) Redux by (intro exI [of _ 73]) simp
    next
      case 6 then show ?thesis using issued_depth5(12) Redux by (intro exI [of _ 91]) simp
    qed
  qed
  then show "sz \<in> {sz. \<exists>c\<in>set (map (\<lambda>i. (i, 1::real)) [0..<92]).
                      \<exists>d. issued arraySizes depths ! fst c = (m', sz, d)}"
    by auto
qed

lemma issue_order_92_complete:
  "allComplete arraySizes
     (sweepResults (map (\<lambda>c. (issued arraySizes depths ! fst c, snd c))
        (map (\<lambda>i. (i, 1)) [0..<92])))"
proof -
  let ?cs = "map (\<lambda>i. (i, 1::real)) [0..<92]"
  let ?sp = "\<lambda>c. (issued arraySizes depths ! fst c, snd c)"
  have d: "distinct arraySizes" by (simp add: arraySizes_def)
  have "\<forall>c\<in>set ?cs. fst c < length (issued arraySizes depths)"
    by (auto simp: length_issued arraySizes_def depths_def)
  then have sz: "\<forall>c\<in>set (map ?sp ?cs). fst (snd (fst c)) \<in> set arraySizes"
    by (auto simp: issued_sizes)
  have k: "set (Object_keys (getMethod (sweepResults (map ?sp ?cs)) m'))
             = sizeLabel ` set arraySizes" for m'
    unfolding sweep_keys issue_order_92_covered ..
  show ?thesis
    unfolding sweep_complete_iff [OF d sz] using k [of Context] k [of Redux] by simp
qed

section \<open>Isolation of the propagation medium: claim C1\<close>

text \<open>
  C1 (as amended). In a sweep, every run of the scoped strategy (\<^verbatim>\<open>"context"\<close>) uses
  the provider instance of its own root, which no other run of the sweep uses; every
  run of the broadcast strategy (\<^verbatim>\<open>"redux"\<close>) uses the one store of the module.
\<close>

theorem media_of_sweep:
  assumes "ms = mounted (runBenchmarks sizes ds init)"
      and "i < length ms" and "j < length ms" and "i \<noteq> j"
  shows "(fst (spec (ms ! i)) = Context \<longrightarrow>
            medium (ms ! i) = ProviderInstance (rootId (ms ! i)) \<and>
            medium (ms ! i) \<noteq> medium (ms ! j)) \<and>
         (fst (spec (ms ! i)) = Redux \<longrightarrow> medium (ms ! i) = ModuleStore)"
proof -
  note sm = sweep_mounts [OF assms(1)]
  have mi: "medium (ms ! i) = (case fst (spec (ms ! i)) of
               Context \<Rightarrow> ProviderInstance (rootId (ms ! i)) | Redux \<Rightarrow> ModuleStore)"
    using sm(5) nth_mem [OF assms(2)] by blast
  have mj: "medium (ms ! j) = (case fst (spec (ms ! j)) of
               Context \<Rightarrow> ProviderInstance (rootId (ms ! j)) | Redux \<Rightarrow> ModuleStore)"
    using sm(5) nth_mem [OF assms(3)] by blast
  have r: "rootId (ms ! i) \<noteq> rootId (ms ! j)"
    using sm(6) assms(2-4) by simp
  show ?thesis
    using mi mj r by (cases "fst (spec (ms ! j))") auto
qed

theorem media_of_sweep_witness:
  "(0::nat) < length (mounted (runBenchmarks [10] [5, 10] init)) \<and>
   (2::nat) < length (mounted (runBenchmarks [10] [5, 10] init)) \<and> (0::nat) \<noteq> 2 \<and>
   fst (spec (mounted (runBenchmarks [10] [5, 10] init) ! 0)) = Context \<and>
   medium (mounted (runBenchmarks [10] [5, 10] init) ! 0) =
     ProviderInstance (rootId (mounted (runBenchmarks [10] [5, 10] init) ! 0)) \<and>
   medium (mounted (runBenchmarks [10] [5, 10] init) ! 0)
     \<noteq> medium (mounted (runBenchmarks [10] [5, 10] init) ! 2)"
proof -
  have l: "length (mounted (runBenchmarks [10] [5, 10] init)) = 4"
    by (simp add: runBenchmarks_def init_def render_def)
  have s: "spec (mounted (runBenchmarks [10] [5, 10] init) ! 0) = (Context, 10, 5)"
    and r: "rootId (mounted (runBenchmarks [10] [5, 10] init) ! 0) = 0"
    by (simp_all add: runBenchmarks_def init_def render_def)
  show ?thesis
    using media_of_sweep [OF refl, of 0 "[10]" "[5, 10]" 2] l s r by auto
qed

text \<open>
  C1 as stated fails for the broadcast strategy: the runs \<open>(redux, 10, 10)\<close> and
  \<open>(redux, 10, 20)\<close> of the configured sweep dispatch into the same store.
\<close>

theorem store_shared_counterexample:
  "spec (mounted (runBenchmarks arraySizes depths init) ! 3) = (Redux, 10, 10) \<and>
   spec (mounted (runBenchmarks arraySizes depths init) ! 5) = (Redux, 10, 20) \<and>
   medium (mounted (runBenchmarks arraySizes depths init) ! 3) =
     medium (mounted (runBenchmarks arraySizes depths init) ! 5)"
proof -
  let ?ms = "mounted (runBenchmarks arraySizes depths init)"
  note sm = sweep_mounts [OF refl, where sizes = arraySizes and ds = depths]
  have l: "length ?ms = 108"
    unfolding sm(1) length_issued by (simp add: arraySizes_def depths_def)
  have i3: "issued arraySizes depths ! 3 = (Redux, 10, 10)"
    and i5: "issued arraySizes depths ! 5 = (Redux, 10, 20)"
    by (simp_all add: issued_eq arraySizes_def depths_def)
  have s3: "spec (?ms ! 3) = (Redux, 10, 10)" using sm(6) [of 3] l i3 by simp
  have s5: "spec (?ms ! 5) = (Redux, 10, 20)" using sm(6) [of 5] l i5 by simp
  have m3: "medium (?ms ! 3) = ModuleStore"
    using sm(5) [of "?ms ! 3"] l by (simp add: s3)
  have m5: "medium (?ms ! 5) = ModuleStore"
    using sm(5) [of "?ms ! 5"] l by (simp add: s5)
  show ?thesis using s3 s5 m3 m5 by simp
qed

section \<open>Enumeration of the runs: claim C5\<close>

text \<open>
  C5. One call of \<^verbatim>\<open>runBenchmarks\<close> with the configured lists issues exactly one run
  for every triple of the cross product of the two strategies, the six sizes and the
  nine depths: the list of issued RunSpecs has no duplicates, its elements are exactly
  the triples of the cross product, and there are 108 of them. This holds from every
  state: the roots mounted by the call are appended to those mounted before.
\<close>

theorem sweep_issues_cross_product:
  "distinct (issued arraySizes depths) \<and>
   set (issued arraySizes depths) =
     {Context, Redux} \<times> {10, 100, 1000, 10000, 100000, 1000000}
       \<times> {5, 10, 20, 50, 60, 70, 80, 90, 100} \<and>
   length (issued arraySizes depths) = 108 \<and>
   map spec (mounted (runBenchmarks arraySizes depths st)) =
     map spec (mounted st) @ issued arraySizes depths"
proof -
  have d: "distinct (issued arraySizes depths)"
    by (rule distinct_issued) (simp_all add: arraySizes_def depths_def)
  have s: "set (issued arraySizes depths) =
     {Context, Redux} \<times> {10, 100, 1000, 10000, 100000, 1000000}
       \<times> {5, 10, 20, 50, 60, 70, 80, 90, 100}"
    unfolding set_issued by (simp add: arraySizes_def depths_def)
  have l: "length (issued arraySizes depths) = 108"
    by (simp add: length_issued arraySizes_def depths_def)
  have m: "map spec (mounted (runBenchmarks arraySizes depths st)) =
     map spec (mounted st) @ issued arraySizes depths"
    by (simp add: runBenchmarks_def Let_def specs_outer issued_eq)
  show ?thesis using d s l m by blast
qed

section \<open>The record operation: claim C10\<close>

text \<open>
  C10. One call of a handler returned by \<^verbatim>\<open>completeBenchmark\<close> sets the leaf cell
  addressed by its own strategy, size label and depth label to its time, whatever was
  there before (the intermediate mapping is created when absent, an earlier time for
  the same key is replaced); every other cell of the matrix is unchanged, and so are
  the objects of other sweeps and the mounted roots.
\<close>

theorem completeBenchmark_frame:
  assumes "k < length (closures st)"
  shows "cell (closures (completeBenchmark sizes k m sz d t st) ! k)
           m (sizeLabel sz) (depthLabel d) = Some t \<and>
         (\<forall>m' sl dl. (m', sl, dl) \<noteq> (m, sizeLabel sz, depthLabel d) \<longrightarrow>
            cell (closures (completeBenchmark sizes k m sz d t st) ! k) m' sl dl =
            cell (closures st ! k) m' sl dl) \<and>
         (\<forall>j. j \<noteq> k \<longrightarrow> closures (completeBenchmark sizes k m sz d t st) ! j = closures st ! j) \<and>
         length (closures (completeBenchmark sizes k m sz d t st)) = length (closures st) \<and>
         mounted (completeBenchmark sizes k m sz d t st) = mounted st"
  using assms by (simp add: completeBenchmark_def Let_def cell_insertResult)

theorem completeBenchmark_frame_witness:
  "(0::nat) < length (closures (runBenchmarks [10] [5, 10] init)) \<and>
   cell (closures (completeBenchmark [10] 0 Context 10 5 9
           (completeBenchmark [10] 0 Context 10 5 7 (runBenchmarks [10] [5, 10] init))) ! 0)
     Context (sizeLabel 10) (depthLabel 5) = Some 9 \<and>
   cell (closures (completeBenchmark [10] 0 Context 10 10 8
           (completeBenchmark [10] 0 Context 10 5 7 (runBenchmarks [10] [5, 10] init))) ! 0)
     Context (sizeLabel 10) (depthLabel 5) = Some 7"
proof -
  let ?s = "runBenchmarks [10] [5, 10] init"
  let ?s1 = "completeBenchmark [10] 0 Context 10 5 7 ?s"
  have l: "0 < length (closures ?s)"
    using runBenchmarks_other_fields [of "[10]" "[5, 10]" init] by simp
  note f1 = completeBenchmark_frame [OF l, of "[10]" Context 10 5 7]
  from f1 l have l1: "0 < length (closures ?s1)" by simp
  note f2 = completeBenchmark_frame [OF l1, of "[10]" Context 10 5 9]
  note f3 = completeBenchmark_frame [OF l1, of "[10]" Context 10 10 8]
  from f3 have "cell (closures (completeBenchmark [10] 0 Context 10 10 8 ?s1) ! 0)
                  Context (sizeLabel 10) (depthLabel 5)
                = cell (closures ?s1 ! 0) Context (sizeLabel 10) (depthLabel 5)"
    by simp
  with f1 f2 l show ?thesis by simp
qed

section \<open>Results under their own key: claim C6\<close>

text \<open>
  C6. When the effect of every root of a sweep runs exactly once, in any order, then
  for every run the cell at the key made of its own strategy, its own size label and
  its own depth label holds the elapsed time that this run reported.
\<close>

theorem sweep_cell_own_time:
  assumes "distinct sizes" and "distinct ds"
      and "mset (map fst cs) = mset [0..<length (issued sizes ds)]"
      and "(r, t) \<in> set cs"
      and "issued sizes ds ! r = (m, sz, d)"
  shows "cell (closures (fold (effect sizes) cs (runBenchmarks sizes ds init)) ! 0)
           m (sizeLabel sz) (depthLabel d) = Some t"
proof -
  let ?sp = "\<lambda>c. (issued sizes ds ! fst c, snd c)"
  have "distinct (map fst cs) \<longleftrightarrow> distinct [0..<length (issued sizes ds)]"
    by (rule mset_eq_imp_distinct_iff [OF assms(3)])
  then have dc: "distinct (map fst cs)" by simp
  have "set (map fst cs) = set [0..<length (issued sizes ds)]"
    by (rule mset_eq_setD [OF assms(3)])
  moreover have "fst c \<in> set (map fst cs)" if "c \<in> set cs" for c
    using that by simp
  ultimately have bd: "\<forall>c\<in>set cs. fst c < length (issued sizes ds)" by auto
  have cl: "closures (fold (effect sizes) cs (runBenchmarks sizes ds init)) =
              [sweepResults (map ?sp cs)]"
    using sweep_state [OF dc bd] by blast
  have inj: "inj_on (nth (issued sizes ds)) (set (map fst cs))"
    using bd distinct_issued [OF assms(1,2)] by (auto simp: inj_on_def nth_eq_iff_index_eq)
  have "map fst (map ?sp cs) = map (nth (issued sizes ds)) (map fst cs)"
    by simp
  then have ds: "distinct (map fst (map ?sp cs))"
    using dc inj by (simp only: distinct_map)
  have mem: "((m, sz, d), t) \<in> set (map ?sp cs)"
    using assms(4,5) by force
  show ?thesis
    unfolding cl using cell_fold_own [OF ds mem] by (simp add: sweepResults_def)
qed

theorem sweep_cell_own_time_witness:
  "distinct [10, 100 :: nat] \<and> distinct [5, 10 :: nat] \<and>
   mset (map fst [(7, 1), (6, 2), (5, 3), (4, 4), (3, 5), (2, 6), (1, 7), (0, 8 :: real)])
     = mset [0..<length (issued [10, 100] [5, 10])] \<and>
   (3, 5) \<in> set [(7, 1), (6, 2), (5, 3), (4, 4), (3, 5), (2, 6), (1, 7), (0 :: nat, 8 :: real)] \<and>
   issued [10, 100] [5, 10] ! 3 = (Redux, 10, 10) \<and>
   cell (closures (fold (effect [10, 100])
                    [(7, 1), (6, 2), (5, 3), (4, 4), (3, 5), (2, 6), (1, 7), (0, 8)]
                    (runBenchmarks [10, 100] [5, 10] init)) ! 0)
     Redux (sizeLabel 10) (depthLabel 10) = Some 5"
proof -
  let ?cs = "[(7, 1), (6, 2), (5, 3), (4, 4), (3, 5), (2, 6), (1, 7), (0 :: nat, 8 :: real)]"
  have h1: "distinct [10, 100 :: nat]" and h2: "distinct [5, 10 :: nat]" by simp_all
  have "[0..<8] = [0, 1, 2, 3, 4, 5, 6, 7 :: nat]"
    by (simp add: upt_rec)
  then have h3: "mset (map fst ?cs) = mset [0..<length (issued [10, 100] [5, 10])]"
    by (simp add: length_issued)
  have h4: "(3, 5) \<in> set ?cs" by simp
  have h5: "issued [10, 100] [5, 10] ! 3 = (Redux, 10, 10)"
    by (simp add: issued_eq)
  from sweep_cell_own_time [OF h1 h2 h3 h4 h5] h1 h2 h3 h4 h5 show ?thesis
    by blast
qed

section \<open>The completeness check: claim C3\<close>

text \<open>
  C3. After every insertion in a sweep over a size list without duplicates, the
  condition of the completeness check holds exactly when, for both strategies, the set
  of size labels present in the matrix is the set of labels of the configured sizes.
  When it holds, the handler has published the matrix and cleared the running flag;
  when it does not hold, the handler leaves the running flag and the published matrix
  as they were before the insertion. So the running flag is still set exactly when no
  insertion so far has found every size label present for both strategies. The size
  labels present for a strategy are those of the sizes for which at least one run of
  that strategy has completed, at whatever depth: no depth label has to be filled.
\<close>

theorem completeness_is_size_label_coverage:
  assumes "distinct sizes" and "distinct (map fst (cs @ [c]))"
      and "\<forall>x\<in>set (cs @ [c]). fst x < length (issued sizes ds)"
  shows "(allComplete sizes
            (closures (fold (effect sizes) (cs @ [c]) (runBenchmarks sizes ds init)) ! 0)
            \<longleftrightarrow>
          sizeLabelsCovered sizes
            (closures (fold (effect sizes) (cs @ [c]) (runBenchmarks sizes ds init)) ! 0)) \<and>
         (sizeLabelsCovered sizes
            (closures (fold (effect sizes) (cs @ [c]) (runBenchmarks sizes ds init)) ! 0)
            \<longrightarrow>
          \<not> isRunning (fold (effect sizes) (cs @ [c]) (runBenchmarks sizes ds init)) \<and>
          benchmarkResults (fold (effect sizes) (cs @ [c]) (runBenchmarks sizes ds init))
            = Some 0) \<and>
         (\<not> sizeLabelsCovered sizes
            (closures (fold (effect sizes) (cs @ [c]) (runBenchmarks sizes ds init)) ! 0)
            \<longrightarrow>
          isRunning (fold (effect sizes) (cs @ [c]) (runBenchmarks sizes ds init))
            = isRunning (fold (effect sizes) cs (runBenchmarks sizes ds init)) \<and>
          benchmarkResults (fold (effect sizes) (cs @ [c]) (runBenchmarks sizes ds init))
            = benchmarkResults (fold (effect sizes) cs (runBenchmarks sizes ds init))) \<and>
         (isRunning (fold (effect sizes) (cs @ [c]) (runBenchmarks sizes ds init)) \<longleftrightarrow>
            (\<forall>n. 0 < n \<and> n \<le> length (cs @ [c]) \<longrightarrow>
               \<not> sizeLabelsCovered sizes
                   (closures (fold (effect sizes) (take n (cs @ [c]))
                                (runBenchmarks sizes ds init)) ! 0))) \<and>
         (\<forall>m'. set (Object_keys (getMethod
                (closures (fold (effect sizes) (cs @ [c]) (runBenchmarks sizes ds init)) ! 0) m'))
            = sizeLabel ` {sz. \<exists>x\<in>set (cs @ [c]). \<exists>d. issued sizes ds ! fst x = (m', sz, d)})"
proof -
  let ?sp = "\<lambda>c. (issued sizes ds ! fst c, snd c)"
  let ?start = "runBenchmarks sizes ds init"
  let ?xs = "cs @ [c]"
  let ?after = "fold (effect sizes) ?xs ?start"
  let ?before = "fold (effect sizes) cs ?start"
  from assms(2,3) have dc: "distinct (map fst cs)"
    and bc: "\<forall>x\<in>set cs. fst x < length (issued sizes ds)"
    by simp_all
  note ssA = sweep_state [OF assms(2,3)]
  note ssB = sweep_state [OF dc bc]
  have clA: "closures ?after ! 0 = sweepResults (map ?sp ?xs)"
    using ssA by simp
  have whole: "allComplete sizes (sweepResults (map ?sp ?xs)) \<longleftrightarrow>
               sizeLabelsCovered sizes (closures ?after ! 0)"
    using sweep_prefix_complete_iff [OF assms, of "length ?xs"] by simp
  have a: "allComplete sizes (closures ?after ! 0) \<longleftrightarrow>
           sizeLabelsCovered sizes (closures ?after ! 0)"
    using whole unfolding clA .
  have runA: "isRunning ?after \<longleftrightarrow>
      (\<forall>n. 0 < n \<and> n \<le> length ?xs \<longrightarrow>
          \<not> allComplete sizes (sweepResults (map ?sp (take n ?xs))))"
    using ssA by blast
  have runB: "isRunning ?before \<longleftrightarrow>
      (\<forall>n. 0 < n \<and> n \<le> length cs \<longrightarrow>
          \<not> allComplete sizes (sweepResults (map ?sp (take n cs))))"
    using ssB by blast
  have tk: "\<And>n. n \<le> length cs \<Longrightarrow> take n ?xs = take n cs" by simp
  have "(\<forall>n. 0 < n \<and> n \<le> length ?xs \<longrightarrow>
            \<not> allComplete sizes (sweepResults (map ?sp (take n ?xs)))) \<longleftrightarrow>
        (\<forall>n. 0 < n \<and> n \<le> length cs \<longrightarrow>
            \<not> allComplete sizes (sweepResults (map ?sp (take n cs)))) \<and>
        \<not> allComplete sizes (sweepResults (map ?sp ?xs))"
    by (simp add: all_upto_Suc tk)
  then have rel: "isRunning ?after \<longleftrightarrow>
      isRunning ?before \<and> \<not> sizeLabelsCovered sizes (closures ?after ! 0)"
    unfolding runA runB whole .
  have pubA: "benchmarkResults ?after = (if isRunning ?after then None else Some 0)"
    using ssA by blast
  have pubB: "benchmarkResults ?before = (if isRunning ?before then None else Some 0)"
    using ssB by blast
  have b: "sizeLabelsCovered sizes (closures ?after ! 0) \<longrightarrow>
           \<not> isRunning ?after \<and> benchmarkResults ?after = Some 0"
    using rel pubA by auto
  have c: "\<not> sizeLabelsCovered sizes (closures ?after ! 0) \<longrightarrow>
           isRunning ?after = isRunning ?before \<and>
           benchmarkResults ?after = benchmarkResults ?before"
    using rel pubA pubB by auto
  have d: "isRunning ?after \<longleftrightarrow>
      (\<forall>n. 0 < n \<and> n \<le> length ?xs \<longrightarrow>
         \<not> sizeLabelsCovered sizes
             (closures (fold (effect sizes) (take n ?xs) ?start) ! 0))"
    unfolding runA sweep_prefix_complete_iff [OF assms] ..
  have e: "set (Object_keys (getMethod (closures ?after ! 0) m'))
            = sizeLabel ` {sz. \<exists>x\<in>set ?xs. \<exists>d. issued sizes ds ! fst x = (m', sz, d)}" for m'
    unfolding clA by (rule sweep_keys)
  show ?thesis
    using a b c d e by blast
qed

theorem completeness_is_size_label_coverage_witness:
  "distinct [10, 100 :: nat] \<and>
   distinct (map fst ([(0, 1), (1, 2), (4, 3)] @ [(5 :: nat, 4 :: real)])) \<and>
   (5::nat) < length (issued [10, 100] [5, 10]) \<and>
   sizeLabelsCovered [10, 100]
     (closures (fold (effect [10, 100]) ([(0, 1), (1, 2), (4, 3)] @ [(5, 4)])
        (runBenchmarks [10, 100] [5, 10] init)) ! 0) \<and>
   \<not> isRunning (fold (effect [10, 100]) ([(0, 1), (1, 2), (4, 3)] @ [(5, 4)])
        (runBenchmarks [10, 100] [5, 10] init)) \<and>
   benchmarkResults (fold (effect [10, 100]) ([(0, 1), (1, 2), (4, 3)] @ [(5, 4)])
        (runBenchmarks [10, 100] [5, 10] init)) = Some 0 \<and>
   cell (closures (fold (effect [10, 100]) ([(0, 1), (1, 2), (4, 3)] @ [(5, 4)])
        (runBenchmarks [10, 100] [5, 10] init)) ! 0) Context (sizeLabel 10) (depthLabel 10)
     = None \<and>
   \<not> sizeLabelsCovered [10, 100]
     (closures (fold (effect [10, 100]) ([(0, 1), (1, 2)] @ [(4, 3)])
        (runBenchmarks [10, 100] [5, 10] init)) ! 0) \<and>
   isRunning (fold (effect [10, 100]) ([(0, 1), (1, 2)] @ [(4, 3)])
        (runBenchmarks [10, 100] [5, 10] init)) \<and>
   benchmarkResults (fold (effect [10, 100]) ([(0, 1), (1, 2)] @ [(4, 3)])
        (runBenchmarks [10, 100] [5, 10] init)) = None"
proof -
  let ?start = "runBenchmarks [10, 100] [5, 10] init"
  let ?cs = "[(0, 1), (1, 2), (4, 3)] :: (nat \<times> real) list"
  let ?c = "(5, 4) :: nat \<times> real"
  let ?bs = "[(0, 1), (1, 2)] :: (nat \<times> real) list"
  let ?b = "(4, 3) :: nat \<times> real"
  have h1: "distinct [10, 100 :: nat]" by simp
  have h2: "distinct (map fst (?cs @ [?c]))" by simp
  have h3: "\<forall>x\<in>set (?cs @ [?c]). fst x < length (issued [10, 100] [5, 10])"
    by (simp add: length_issued)
  have h5: "(5::nat) < length (issued [10, 100] [5, 10])"
    by (simp add: length_issued)
  have g2: "distinct (map fst (?bs @ [?b]))" by simp
  have g3: "\<forall>x\<in>set (?bs @ [?b]). fst x < length (issued [10, 100] [5, 10])"
    by (simp add: length_issued)
  note t1 = completeness_is_size_label_coverage [OF h1 h2 h3]
  note t2 = completeness_is_size_label_coverage [OF h1 g2 g3]
  have a1: "allComplete [10, 100] (closures (fold (effect [10, 100]) (?cs @ [?c]) ?start) ! 0)"
    by (simp add: harness_eval)
  have c1: "cell (closures (fold (effect [10, 100]) (?cs @ [?c]) ?start) ! 0)
              Context (sizeLabel 10) (depthLabel 10) = None"
    by (simp add: harness_eval cell_def)
  have a2: "\<not> allComplete [10, 100] (closures (fold (effect [10, 100]) (?bs @ [?b]) ?start) ! 0)"
    by (simp add: harness_eval)
  have r2: "isRunning (fold (effect [10, 100]) ?bs ?start)"
    and p2: "benchmarkResults (fold (effect [10, 100]) ?bs ?start) = None"
    by (simp_all add: harness_eval)
  from t1 a1 have
    "sizeLabelsCovered [10, 100] (closures (fold (effect [10, 100]) (?cs @ [?c]) ?start) ! 0)"
    "\<not> isRunning (fold (effect [10, 100]) (?cs @ [?c]) ?start)"
    "benchmarkResults (fold (effect [10, 100]) (?cs @ [?c]) ?start) = Some 0"
    by blast+
  moreover from t2 a2 r2 p2 have
    "\<not> sizeLabelsCovered [10, 100] (closures (fold (effect [10, 100]) (?bs @ [?b]) ?start) ! 0)"
    "isRunning (fold (effect [10, 100]) (?bs @ [?b]) ?start)"
    "benchmarkResults (fold (effect [10, 100]) (?bs @ [?b]) ?start) = None"
    by simp_all
  ultimately show ?thesis using h1 h2 h5 c1 by blast
qed

section \<open>Completion reported before the matrix is full: claims C2, C8 and C9\<close>

text \<open>
  C2. In the sweep over sizes \<open>{10, 100}\<close> and depths \<open>{5, 10}\<close> with completions in
  issue order, the handler of the sixth completion finds two size labels for each
  strategy, publishes the matrix and clears the running flag: six leaf cells are
  filled, the runs \<open>(context, 100, 10)\<close> and \<open>(redux, 100, 10)\<close> are still mounted.
\<close>

theorem reduced_sweep_reported_early:
  "fold (effect [10, 100]) [(0, 1), (1, 2), (2, 3), (3, 4), (4, 5), (5, 6)]
     (runBenchmarks [10, 100] [5, 10] init) =
   \<lparr>isRunning = False, benchmarkResults = Some 0,
    closures =
      [\<lparr>contextRes = [(''10 objects'', [(''Depth 5'', 1), (''Depth 10'', 3)]),
                      (''100 objects'', [(''Depth 5'', 5)])],
        reduxRes = [(''10 objects'', [(''Depth 5'', 2), (''Depth 10'', 4)]),
                    (''100 objects'', [(''Depth 5'', 6)])]\<rparr>],
    mounted =
      [\<lparr>rootId = 6, medium = ProviderInstance 6, closure = 0, spec = (Context, 100, 10)\<rparr>,
       \<lparr>rootId = 7, medium = ModuleStore, closure = 0, spec = (Redux, 100, 10)\<rparr>],
    nextRoot = 8\<rparr> \<and>
   leafCount (closures (fold (effect [10, 100])
                [(0, 1), (1, 2), (2, 3), (3, 4), (4, 5), (5, 6)]
                (runBenchmarks [10, 100] [5, 10] init)) ! 0) = 6"
  by (simp add: harness_eval leafCount_def)

text \<open>
  C8. In the same sweep with completions in the reverse of the issue order, completion
  is reported at the sixth completion as well, with six leaf cells filled and the runs
  \<open>(context, 10, 5)\<close> and \<open>(redux, 10, 5)\<close> still mounted.
\<close>

theorem reverse_order_reported_early:
  "fold (effect [10, 100]) [(7, 1), (6, 2), (5, 3), (4, 4), (3, 5), (2, 6)]
     (runBenchmarks [10, 100] [5, 10] init) =
   \<lparr>isRunning = False, benchmarkResults = Some 0,
    closures =
      [\<lparr>contextRes = [(''100 objects'', [(''Depth 10'', 2), (''Depth 5'', 4)]),
                      (''10 objects'', [(''Depth 10'', 6)])],
        reduxRes = [(''100 objects'', [(''Depth 10'', 1), (''Depth 5'', 3)]),
                    (''10 objects'', [(''Depth 10'', 5)])]\<rparr>],
    mounted =
      [\<lparr>rootId = 0, medium = ProviderInstance 0, closure = 0, spec = (Context, 10, 5)\<rparr>,
       \<lparr>rootId = 1, medium = ModuleStore, closure = 0, spec = (Redux, 10, 5)\<rparr>],
    nextRoot = 8\<rparr> \<and>
   leafCount (closures (fold (effect [10, 100])
                [(7, 1), (6, 2), (5, 3), (4, 4), (3, 5), (2, 6)]
                (runBenchmarks [10, 100] [5, 10] init)) ! 0) = 6"
  by (simp add: harness_eval leafCount_def)

text \<open>
  C9. In the configured sweep, started by a click in the initial state, with completions
  in issue order, the handler of the 92nd of the 108 completions clears the running
  flag and publishes the matrix, while the runs of the roots 92 to 107 are still
  mounted and their results outstanding.
\<close>

theorem issue_order_flag_cleared_early:
  "isRunning (fold (effect arraySizes) (map (\<lambda>i. (i, 1)) [0..<92])
               (onClick arraySizes depths init)) = False \<and>
   benchmarkResults (fold (effect arraySizes) (map (\<lambda>i. (i, 1)) [0..<92])
               (onClick arraySizes depths init)) = Some 0 \<and>
   map rootId (mounted (fold (effect arraySizes) (map (\<lambda>i. (i, 1)) [0..<92])
               (onClick arraySizes depths init))) = [92..<108]"
proof -
  let ?cs = "map (\<lambda>i. (i, 1::real)) [0..<92]"
  let ?start = "runBenchmarks arraySizes depths init"
  let ?cur = "fold (effect arraySizes) ?cs ?start"
  have oc: "onClick arraySizes depths init = ?start"
    by (simp add: onClick_def init_def)
  have len: "length (issued arraySizes depths) = 108"
    by (simp add: length_issued arraySizes_def depths_def)
  have dc: "distinct (map fst ?cs)" by (simp add: comp_def)
  have bd: "\<forall>c\<in>set ?cs. fst c < length (issued arraySizes depths)"
    by (auto simp: len)
  note ss = sweep_state [OF dc bd]
  have run: "\<not> isRunning ?cur"
  proof
    assume "isRunning ?cur"
    with ss have "\<forall>n. 0 < n \<and> n \<le> length ?cs \<longrightarrow>
       \<not> allComplete arraySizes
           (sweepResults (map (\<lambda>c. (issued arraySizes depths ! fst c, snd c)) (take n ?cs)))"
      by blast
    from this [rule_format, of 92] issue_order_92_complete show False by simp
  qed
  have pub: "benchmarkResults ?cur = Some 0"
    using ss run by simp
  note sm = sweep_mounts [OF refl, where sizes = arraySizes and ds = depths]
  have fs: "fst ` set ?cs = {0..<92}" by (auto simp: image_iff)
  have m1: "mounted ?cur = filter (\<lambda>m. rootId m \<notin> fst ` set ?cs) (mounted ?start)"
    using ss by blast
  have "map rootId (mounted ?cur) = filter (\<lambda>r. r \<notin> {0..<92}) (map rootId (mounted ?start))"
    unfolding m1 fs by (simp add: filter_map comp_def)
  also have "\<dots> = filter (\<lambda>r. r \<notin> {0..<92}) [0..<108]"
    using sm(2) sm(1) len by simp
  also have "\<dots> = [92..<108]"
  proof -
    have "[0..<108] = [0..<92] @ [92..<108]"
      using upt_add_eq_append [of 0 92 16] by simp
    then show ?thesis by (simp add: filter_empty_conv)
  qed
  finally have mo: "map rootId (mounted ?cur) = [92..<108]" .
  with run pub show ?thesis unfolding oc by simp
qed

end
